theory Spec2Isabelle
  imports Main "HOL-Library.Sublist"
begin

section \<open>Messages and their media\<close>

text \<open>
  The harvest pipeline of \<^verbatim>\<open>bot3.py\<close> and \<^verbatim>\<open>bot4.py\<close> looks at three things of a
  message: its \<^verbatim>\<open>id\<close>, whether \<^verbatim>\<open>message.media\<close> is set, and, for a document, the
  \<^verbatim>\<open>mime_type\<close> and the \<^verbatim>\<open>attributes\<close> of the document. An attribute either has a
  \<^verbatim>\<open>duration\<close> field (video, audio) or has none (file name): this is what
  \<^verbatim>\<open>hasattr(attr, "duration")\<close> tests. A \<^verbatim>\<open>MessageMediaDocument\<close> can hold a
  \<^verbatim>\<open>DocumentEmpty\<close>, which has no \<^verbatim>\<open>mime_type\<close>.
\<close>

datatype attribute =
    DocumentAttributeVideo int
  | DocumentAttributeAudio int
  | DocumentAttributeFilename string

fun duration :: "attribute \<Rightarrow> int option" where
  "duration (DocumentAttributeVideo d) = Some d"
| "duration (DocumentAttributeAudio d) = Some d"
| "duration (DocumentAttributeFilename n) = None"

datatype document =
    Document string "attribute list"
  | DocumentEmpty

datatype media =
    MessageMediaPhoto
  | MessageMediaDocument document
  | MessageMediaOther

record message =
  msg_id :: int
  msg_media :: "media option"

text \<open>Python's \<^verbatim>\<open>'video' in mime_type\<close>: the substring test on strings.\<close>

fun contains :: "string \<Rightarrow> string \<Rightarrow> bool" where
  "contains [] sub = (sub = [])"
| "contains (c # cs) sub = (prefix sub (c # cs) \<or> contains cs sub)"

section \<open>Errors, log lines and the world outside the script\<close>

datatype error =
    OSError
  | RPCError
  | ValueError
  | TypeError
  | AttributeError
  | NameError
  | DownloadError

datatype event =
    InfoFetching string
  | InfoFound int int string
  | InfoDownloading int int string
  | InfoExists string
  | InfoDownloadedPhoto string
  | InfoDownloadedVideo string
  | InfoSent string string
  | ErrorSendFailed string string
  | WarnSkippedLong int
  | InfoCompleted string
  | ErrorHarvesting string error

text \<open>
  What the script changes outside itself: the files on disk, the calls of
  \<^verbatim>\<open>download_media\<close> it made (by message id, in order), the files it sent to the target
  group, and its log.
\<close>

record world =
  files :: "string set"
  downloads :: "int list"
  posted :: "string list"
  logged :: "event list"

definition logging :: "event \<Rightarrow> world \<Rightarrow> world" where
  "logging e w = w\<lparr>logged := logged w @ [e]\<rparr>"

text \<open>
  The Telethon client is not part of the repository. It is a parameter of the model:
  \<^item> \<open>dl fs dir m\<close> is what \<^verbatim>\<open>message.download_media(file=dir)\<close> does on disk \<open>fs\<close>: it
    raises, or it returns a path or \<^verbatim>\<open>None\<close>; the second component is the set of files
    it wrote (a download only adds files);
  \<^item> \<open>send_file_ok target path\<close> tells whether \<^verbatim>\<open>client.send_file\<close> succeeds;
  \<^item> \<open>sched msgs\<close> is the order in which the event loop runs the tasks of one
    \<^verbatim>\<open>asyncio.gather\<close> batch (\<^verbatim>\<open>bot4.py\<close> only).
\<close>

datatype dl_outcome = DlRaises | DlReturns "string option"

record env =
  dl :: "string set \<Rightarrow> string \<Rightarrow> message \<Rightarrow> dl_outcome \<times> string set"
  send_file_ok :: "string \<Rightarrow> string \<Rightarrow> bool"
  sched :: "message list \<Rightarrow> nat list"

text \<open>
  A group as the script meets it: its dialog (\<^verbatim>\<open>id\<close>, \<^verbatim>\<open>name\<close>), the history the
  server holds (newest first), whether \<^verbatim>\<open>os.makedirs\<close> fails for its directory, whether
  \<^verbatim>\<open>client.get_messages\<close> fails for it, and the operator's two answers to the
  "How many ..." prompts (\<open>None\<close>: a line that \<^verbatim>\<open>int()\<close> rejects).
\<close>

record group =
  gid :: int
  name :: string
  history :: "message list"
  makedirs_raises :: bool
  unreachable :: bool
  req_photos :: "int option"
  req_videos :: "int option"

text \<open>
  \<^verbatim>\<open>client.get_messages(group.id, offset_id=offset_id, limit=limit)\<close>: at most
  \<^verbatim>\<open>limit\<close> messages older than \<^verbatim>\<open>offset_id\<close>, newest first; \<^verbatim>\<open>offset_id = 0\<close> starts at
  the newest message.
\<close>

definition get_messages :: "group \<Rightarrow> int \<Rightarrow> nat \<Rightarrow> error + message list" where
  "get_messages g offset_id lim =
     (if unreachable g then Inl RPCError
      else Inr (take lim (filter (\<lambda>m. offset_id = 0 \<or> msg_id m < offset_id) (history g))))"

definition limit :: nat where
  "limit = 100"

section \<open>First pass: counting photos and videos\<close>

text \<open>
  The body of the \<^verbatim>\<open>for message in messages\<close> loop of the first pass (the same lines in
  both files): a photo counts as a photo, a document counts as a video when it has a
  \<^verbatim>\<open>mime_type\<close> that contains \<^verbatim>\<open>video\<close>. The attributes are not read.
\<close>

fun count_message :: "message \<Rightarrow> int \<times> int \<Rightarrow> int \<times> int" where
  "count_message m (photo_count, video_count) =
     (case msg_media m of
        None \<Rightarrow> (photo_count, video_count)
      | Some MessageMediaPhoto \<Rightarrow> (photo_count + 1, video_count)
      | Some (MessageMediaDocument (Document mime attrs)) \<Rightarrow>
          if contains mime ''video'' then (photo_count, video_count + 1)
          else (photo_count, video_count)
      | Some (MessageMediaDocument DocumentEmpty) \<Rightarrow> (photo_count, video_count)
      | Some MessageMediaOther \<Rightarrow> (photo_count, video_count))"

fun count_messages :: "message list \<Rightarrow> int \<times> int \<Rightarrow> int \<times> int" where
  "count_messages [] c = c"
| "count_messages (m # ms) c = count_messages ms (count_message m c)"

text \<open>
  The \<^verbatim>\<open>while True\<close> loop of the first pass. The first argument bounds the number of
  pages read; \<open>None\<close> means the bound was reached before an empty page was seen.
\<close>

fun count_pass :: "nat \<Rightarrow> group \<Rightarrow> int \<Rightarrow> int \<times> int \<Rightarrow> (error + int \<times> int) option" where
  "count_pass 0 g offset_id c = None"
| "count_pass (Suc n) g offset_id c =
     (case get_messages g offset_id limit of
        Inl e \<Rightarrow> Some (Inl e)
      | Inr [] \<Rightarrow> Some (Inr c)
      | Inr (m # ms) \<Rightarrow>
          count_pass n g (msg_id (last (m # ms))) (count_messages (m # ms) c))"

text \<open>The tallies of a whole history, as the specification defines the two kinds.\<close>

definition is_photo :: "message \<Rightarrow> bool" where
  "is_photo m = (msg_media m = Some MessageMediaPhoto)"

fun is_video :: "message \<Rightarrow> bool" where
  "is_video m =
     (case msg_media m of
        Some (MessageMediaDocument (Document mime attrs)) \<Rightarrow> contains mime ''video''
      | _ \<Rightarrow> False)"

definition available :: "message list \<Rightarrow> int \<times> int" where
  "available ms = (int (length (filter is_photo ms)), int (length (filter is_video ms)))"

text \<open>A history as the server keeps it: positive ids, strictly decreasing.\<close>

definition well_formed :: "message list \<Rightarrow> bool" where
  "well_formed ms = (sorted_wrt (\<lambda>a b. b < a) (map msg_id ms) \<and> list_all (\<lambda>m. 0 < msg_id m) ms)"

section \<open>Downloading and posting one file\<close>

text \<open>
  The counters \<^verbatim>\<open>downloaded_photos\<close> and \<^verbatim>\<open>downloaded_videos\<close> of the second pass,
  together with the world they are used in.
\<close>

record fetch_state =
  downloaded_photos :: int
  downloaded_videos :: int
  wld :: world

text \<open>
  \<^verbatim>\<open>await message.download_media(file=group_dir)\<close>: the call is recorded, the files the
  client wrote are on disk when it returns.
\<close>

definition download_media :: "env \<Rightarrow> string \<Rightarrow> message \<Rightarrow> world \<Rightarrow> dl_outcome \<times> world" where
  "download_media E group_dir m w =
     (case dl E (files w) group_dir m of
        (out, written) \<Rightarrow>
          (out, w\<lparr>files := files w \<union> written, downloads := downloads w @ [msg_id m]\<rparr>))"

text \<open>
  \<^verbatim>\<open>post_media_to_group\<close> of \<^verbatim>\<open>bot3.py\<close>: one \<^verbatim>\<open>send_file\<close>, its failure caught and
  logged.
\<close>

definition post_media_to_group :: "env \<Rightarrow> string \<Rightarrow> string \<Rightarrow> world \<Rightarrow> world" where
  "post_media_to_group E target_group media_path w =
     (if send_file_ok E target_group media_path
      then logging (InfoSent media_path target_group) (w\<lparr>posted := posted w @ [media_path]\<rparr>)
      else logging (ErrorSendFailed media_path target_group) w)"

definition group_dir_of :: "group \<Rightarrow> string" where
  "group_dir_of g = ''media/'' @ name g"

section \<open>The second pass of \<^verbatim>\<open>bot3.py\<close>\<close>

text \<open>
  The body of \<^verbatim>\<open>for message in messages\<close> in the second pass of \<^verbatim>\<open>bot3.py\<close>. The
  result is the exception that left the body, if any, and the state at that point.
  \<^verbatim>\<open>os.path.exists(None)\<close> raises \<^verbatim>\<open>TypeError\<close>; reading \<^verbatim>\<open>mime_type\<close> of a
  \<^verbatim>\<open>DocumentEmpty\<close> raises \<^verbatim>\<open>AttributeError\<close>.
\<close>

definition harvest_message_bot3 ::
  "env \<Rightarrow> string \<Rightarrow> string \<Rightarrow> int \<Rightarrow> int \<Rightarrow> message \<Rightarrow> fetch_state \<Rightarrow> error option \<times> fetch_state" where
  "harvest_message_bot3 E group_dir target_group download_photos download_videos m s =
     (case msg_media m of
        None \<Rightarrow> (None, s)
      | Some MessageMediaPhoto \<Rightarrow>
          if downloaded_photos s < download_photos then
            (case download_media E group_dir m (wld s) of
               (DlRaises, w) \<Rightarrow> (Some DownloadError, s\<lparr>wld := w\<rparr>)
             | (DlReturns None, w) \<Rightarrow> (Some TypeError, s\<lparr>wld := w\<rparr>)
             | (DlReturns (Some file_name), w) \<Rightarrow>
                 if file_name \<in> files w then (None, s\<lparr>wld := logging (InfoExists file_name) w\<rparr>)
                 else (None, s\<lparr>downloaded_photos := downloaded_photos s + 1,
                                wld := post_media_to_group E target_group file_name
                                         (logging (InfoDownloadedPhoto file_name) w)\<rparr>))
          else (None, s)
      | Some (MessageMediaDocument DocumentEmpty) \<Rightarrow> (Some AttributeError, s)
      | Some (MessageMediaDocument (Document mime attrs)) \<Rightarrow>
          if contains mime ''video'' \<and> downloaded_videos s < download_videos then
            (case download_media E group_dir m (wld s) of
               (DlRaises, w) \<Rightarrow> (Some DownloadError, s\<lparr>wld := w\<rparr>)
             | (DlReturns None, w) \<Rightarrow> (Some TypeError, s\<lparr>wld := w\<rparr>)
             | (DlReturns (Some file_name), w) \<Rightarrow>
                 if file_name \<in> files w then (None, s\<lparr>wld := logging (InfoExists file_name) w\<rparr>)
                 else (None, s\<lparr>downloaded_videos := downloaded_videos s + 1,
                                wld := post_media_to_group E target_group file_name
                                         (logging (InfoDownloadedVideo file_name) w)\<rparr>))
          else (None, s)
      | Some MessageMediaOther \<Rightarrow> (None, s))"

fun harvest_messages_bot3 ::
  "env \<Rightarrow> string \<Rightarrow> string \<Rightarrow> int \<Rightarrow> int \<Rightarrow> message list \<Rightarrow> fetch_state \<Rightarrow> error option \<times> fetch_state" where
  "harvest_messages_bot3 E group_dir target_group download_photos download_videos [] s = (None, s)"
| "harvest_messages_bot3 E group_dir target_group download_photos download_videos (m # ms) s =
     (case harvest_message_bot3 E group_dir target_group download_photos download_videos m s of
        (Some e, s') \<Rightarrow> (Some e, s')
      | (None, s') \<Rightarrow>
          harvest_messages_bot3 E group_dir target_group download_photos download_videos ms s')"

text \<open>The \<^verbatim>\<open>while True\<close> loop of the second pass; \<open>None\<close> when the page bound is reached.\<close>

fun fetch_pass_bot3 ::
  "nat \<Rightarrow> env \<Rightarrow> group \<Rightarrow> string \<Rightarrow> int \<Rightarrow> int \<Rightarrow> int \<Rightarrow> fetch_state \<Rightarrow>
   (error option \<times> fetch_state) option" where
  "fetch_pass_bot3 0 E g target_group download_photos download_videos offset_id s = None"
| "fetch_pass_bot3 (Suc n) E g target_group download_photos download_videos offset_id s =
     (case get_messages g offset_id limit of
        Inl e \<Rightarrow> Some (Some e, s)
      | Inr [] \<Rightarrow> Some (None, s)
      | Inr (m # ms) \<Rightarrow>
          (case harvest_messages_bot3 E (group_dir_of g) target_group
                  download_photos download_videos (m # ms) s of
             (Some e, s') \<Rightarrow> Some (Some e, s')
           | (None, s') \<Rightarrow>
               fetch_pass_bot3 n E g target_group download_photos download_videos
                 (msg_id (last (m # ms))) s'))"

section \<open>The second pass of \<^verbatim>\<open>bot4.py\<close>: a batch of tasks per page\<close>

text \<open>
  \<^verbatim>\<open>download_and_post(message)\<close> is a coroutine; it gives up control at
  \<^verbatim>\<open>await message.download_media\<close> only (an uncontended semaphore is taken without
  suspending). A task is therefore in one of four places: not started, suspended in the
  download of a photo or of a video, returned, or left by an exception.
\<close>

datatype kind = Photo | Video

datatype task =
    Pending message
  | Downloading kind message
  | Finished
  | Raised error

definition max_video_duration :: int where
  "max_video_duration = 10 * 60"

text \<open>
  \<^verbatim>\<open>for attr in attributes: if hasattr(attr, "duration") and attr.duration >
  max_video_duration: ... return\<close>: the duration of the first attribute over the limit.
\<close>

fun too_long :: "attribute list \<Rightarrow> int option" where
  "too_long [] = None"
| "too_long (a # as) =
     (case duration a of
        Some d \<Rightarrow> if d > max_video_duration then Some d else too_long as
      | None \<Rightarrow> too_long as)"

text \<open>The task from its start to its first suspension or its end.\<close>

definition start :: "int \<Rightarrow> int \<Rightarrow> message \<Rightarrow> fetch_state \<Rightarrow> task \<times> fetch_state" where
  "start download_photos download_videos m s =
     (case msg_media m of
        None \<Rightarrow> (Finished, s)
      | Some MessageMediaPhoto \<Rightarrow>
          if downloaded_photos s < download_photos then (Downloading Photo m, s)
          else (Finished, s)
      | Some (MessageMediaDocument DocumentEmpty) \<Rightarrow> (Raised AttributeError, s)
      | Some (MessageMediaDocument (Document mime attrs)) \<Rightarrow>
          if contains mime ''video'' \<and> downloaded_videos s < download_videos then
            (case too_long attrs of
               Some d \<Rightarrow> (Finished, s\<lparr>wld := logging (WarnSkippedLong d) (wld s)\<rparr>)
             | None \<Rightarrow> (Downloading Video m, s))
          else (Finished, s)
      | Some MessageMediaOther \<Rightarrow> (Finished, s))"

text \<open>
  The task from the return of \<^verbatim>\<open>download_media\<close> to its end. \<^verbatim>\<open>bot4.py\<close> calls
  \<^verbatim>\<open>post_media_to_group\<close> but neither defines nor imports it: reaching the call raises
  \<^verbatim>\<open>NameError\<close>, after the counter was incremented.
\<close>

definition resume :: "env \<Rightarrow> string \<Rightarrow> kind \<Rightarrow> message \<Rightarrow> fetch_state \<Rightarrow> task \<times> fetch_state" where
  "resume E group_dir k m s =
     (case download_media E group_dir m (wld s) of
        (DlRaises, w) \<Rightarrow> (Raised DownloadError, s\<lparr>wld := w\<rparr>)
      | (DlReturns None, w) \<Rightarrow> (Finished, s\<lparr>wld := w\<rparr>)
      | (DlReturns (Some file_name), w) \<Rightarrow>
          if file_name \<noteq> [] \<and> file_name \<notin> files w then
            (case k of
               Photo \<Rightarrow>
                 (Raised NameError,
                  s\<lparr>downloaded_photos := downloaded_photos s + 1,
                    wld := logging (InfoDownloadedPhoto file_name) w\<rparr>)
             | Video \<Rightarrow>
                 (Raised NameError,
                  s\<lparr>downloaded_videos := downloaded_videos s + 1,
                    wld := logging (InfoDownloadedVideo file_name) w\<rparr>))
          else (Finished, s\<lparr>wld := w\<rparr>))"

text \<open>
  One \<^verbatim>\<open>asyncio.gather\<close> batch: the tasks, the first exception a task raised (the one
  \<^verbatim>\<open>gather\<close> hands to its caller) and the variables the tasks share through
  \<^verbatim>\<open>nonlocal\<close>.
\<close>

record batch =
  tasks :: "task list"
  gathered :: "error option"
  shared :: fetch_state

fun is_downloading :: "task \<Rightarrow> bool" where
  "is_downloading (Downloading k m) = True"
| "is_downloading t = False"

definition in_flight :: "task list \<Rightarrow> nat" where
  "in_flight ts = length (filter is_downloading ts)"

fun settle :: "nat \<Rightarrow> task \<times> fetch_state \<Rightarrow> batch \<Rightarrow> batch" where
  "settle i (t, s) b =
     b\<lparr>tasks := (tasks b)[i := t],
       gathered := (case gathered b of
                      Some e \<Rightarrow> Some e
                    | None \<Rightarrow> (case t of Raised e \<Rightarrow> Some e | _ \<Rightarrow> None)),
       shared := s\<rparr>"

text \<open>
  The event loop runs task \<open>i\<close> until it suspends or ends. A task that has not started
  needs one of the five places of \<^verbatim>\<open>asyncio.Semaphore(5)\<close>; the places are held by the
  tasks suspended in a download.
\<close>

definition step :: "env \<Rightarrow> string \<Rightarrow> int \<Rightarrow> int \<Rightarrow> nat \<Rightarrow> batch \<Rightarrow> batch" where
  "step E group_dir download_photos download_videos i b =
     (if i < length (tasks b) then
        (case tasks b ! i of
           Pending m \<Rightarrow>
             if in_flight (tasks b) < 5
             then settle i (start download_photos download_videos m (shared b)) b
             else b
         | Downloading k m \<Rightarrow> settle i (resume E group_dir k m (shared b)) b
         | Finished \<Rightarrow> b
         | Raised e \<Rightarrow> b)
      else b)"

definition run :: "env \<Rightarrow> string \<Rightarrow> int \<Rightarrow> int \<Rightarrow> nat list \<Rightarrow> batch \<Rightarrow> batch" where
  "run E group_dir download_photos download_videos order b =
     fold (step E group_dir download_photos download_videos) order b"

text \<open>
  Whatever the order so far, every task runs to its end: first the suspended downloads
  return, then each task not yet started runs alone.
\<close>

definition complete :: "env \<Rightarrow> string \<Rightarrow> int \<Rightarrow> int \<Rightarrow> batch \<Rightarrow> batch" where
  "complete E group_dir download_photos download_videos b =
     (let ix = [0..<length (tasks b)]
      in run E group_dir download_photos download_videos (concat (map (\<lambda>i. [i, i]) ix))
           (fold (\<lambda>i b. if is_downloading (tasks b ! i)
                         then step E group_dir download_photos download_videos i b else b) ix b))"

definition gather :: "env \<Rightarrow> string \<Rightarrow> int \<Rightarrow> int \<Rightarrow> nat list \<Rightarrow> message list \<Rightarrow> fetch_state \<Rightarrow> batch" where
  "gather E group_dir download_photos download_videos order messages s =
     complete E group_dir download_photos download_videos
       (run E group_dir download_photos download_videos order
          \<lparr>tasks = map Pending messages, gathered = None, shared = s\<rparr>)"

text \<open>
  \<^verbatim>\<open>download_and_post_media\<close>: the two counters arrive as arguments; the function returns
  nothing, so what the caller sees afterwards is the world and the exception, if any.
\<close>

definition download_and_post_media ::
  "env \<Rightarrow> string \<Rightarrow> string \<Rightarrow> message list \<Rightarrow> int \<Rightarrow> int \<Rightarrow> int \<Rightarrow> int \<Rightarrow> world \<Rightarrow> error option \<times> world" where
  "download_and_post_media E group_dir target_group_input messages
      downloaded_photos0 downloaded_videos0 download_photos download_videos w =
     (let b = gather E group_dir download_photos download_videos (sched E messages) messages
                \<lparr>downloaded_photos = downloaded_photos0, downloaded_videos = downloaded_videos0,
                 wld = w\<rparr>
      in (gathered b, wld (shared b)))"

fun fetch_pass_bot4 ::
  "nat \<Rightarrow> env \<Rightarrow> group \<Rightarrow> string \<Rightarrow> int \<Rightarrow> int \<Rightarrow> int \<Rightarrow> fetch_state \<Rightarrow>
   (error option \<times> fetch_state) option" where
  "fetch_pass_bot4 0 E g target_group download_photos download_videos offset_id s = None"
| "fetch_pass_bot4 (Suc n) E g target_group download_photos download_videos offset_id s =
     (case get_messages g offset_id limit of
        Inl e \<Rightarrow> Some (Some e, s)
      | Inr [] \<Rightarrow> Some (None, s)
      | Inr (m # ms) \<Rightarrow>
          (case download_and_post_media E (group_dir_of g) target_group (m # ms)
                  (downloaded_photos s) (downloaded_videos s) download_photos download_videos
                  (wld s) of
             (Some e, w) \<Rightarrow> Some (Some e, s\<lparr>wld := w\<rparr>)
           | (None, w) \<Rightarrow>
               fetch_pass_bot4 n E g target_group download_photos download_videos
                 (msg_id (last (m # ms))) (s\<lparr>wld := w\<rparr>)))"

section \<open>One group, and the loop over the selected groups\<close>

definition initial :: "world \<Rightarrow> fetch_state" where
  "initial w = \<lparr>downloaded_photos = 0, downloaded_videos = 0, wld = w\<rparr>"

text \<open>
  The body of the \<^verbatim>\<open>try\<close> for one group. It is the same text in both files up to the
  second pass, which is the parameter \<open>pass\<close>. The result is the exception that left
  the body, if any, with the counters and the world at that point (the counters are 0
  before the second pass sets them); \<open>None\<close> when a loop did not end within \<open>fuel\<close> pages.
\<close>

definition harvest_group ::
  "(nat \<Rightarrow> env \<Rightarrow> group \<Rightarrow> string \<Rightarrow> int \<Rightarrow> int \<Rightarrow> int \<Rightarrow> fetch_state \<Rightarrow> (error option \<times> fetch_state) option)
   \<Rightarrow> nat \<Rightarrow> env \<Rightarrow> string \<Rightarrow> group \<Rightarrow> world \<Rightarrow> (error option \<times> fetch_state) option" where
  "harvest_group pass fuel E target_group g w =
     (if makedirs_raises g then Some (Some OSError, initial w)
      else
        let w1 = logging (InfoFetching (name g)) w in
        case count_pass fuel g 0 (0, 0) of
          None \<Rightarrow> None
        | Some (Inl e) \<Rightarrow> Some (Some e, initial w1)
        | Some (Inr (photo_count, video_count)) \<Rightarrow>
            let w2 = logging (InfoFound photo_count video_count (name g)) w1 in
            (case req_photos g of
               None \<Rightarrow> Some (Some ValueError, initial w2)
             | Some answer_photos \<Rightarrow>
                 (case req_videos g of
                    None \<Rightarrow> Some (Some ValueError, initial w2)
                  | Some answer_videos \<Rightarrow>
                      let download_photos = min answer_photos photo_count;
                          download_videos = min answer_videos video_count;
                          w3 = logging (InfoDownloading download_photos download_videos (name g)) w2
                      in
                      (case pass fuel E g target_group download_photos download_videos 0 (initial w3) of
                         None \<Rightarrow> None
                       | Some (Some e, s) \<Rightarrow> Some (Some e, s)
                       | Some (None, s) \<Rightarrow>
                           Some (None, s\<lparr>wld := logging (InfoCompleted (name g)) (wld s)\<rparr>)))))"

text \<open>
  What the run leaves for one group: whether its \<^verbatim>\<open>try\<close> body was left by an exception,
  and the two counters.
\<close>

record summary =
  channel :: string
  failure :: "error option"
  photos :: int
  videos :: int

text \<open>
  \<^verbatim>\<open>for group in selected_groups: try: ... except Exception as e: logging.error(...)\<close>.
\<close>

fun harvest_and_post_media ::
  "(nat \<Rightarrow> env \<Rightarrow> group \<Rightarrow> string \<Rightarrow> int \<Rightarrow> int \<Rightarrow> int \<Rightarrow> fetch_state \<Rightarrow> (error option \<times> fetch_state) option)
   \<Rightarrow> nat \<Rightarrow> env \<Rightarrow> string \<Rightarrow> group list \<Rightarrow> world \<Rightarrow> (summary list \<times> world) option" where
  "harvest_and_post_media pass fuel E target_group [] w = Some ([], w)"
| "harvest_and_post_media pass fuel E target_group (g # gs) w =
     (case harvest_group pass fuel E target_group g w of
        None \<Rightarrow> None
      | Some (r, s) \<Rightarrow>
          (case harvest_and_post_media pass fuel E target_group gs
                  (case r of
                     Some e \<Rightarrow> logging (ErrorHarvesting (name g) e) (wld s)
                   | None \<Rightarrow> wld s) of
             None \<Rightarrow> None
           | Some (rs, w') \<Rightarrow>
               Some (\<lparr>channel = name g, failure = r, photos = downloaded_photos s,
                       videos = downloaded_videos s\<rparr> # rs, w')))"

definition harvest_and_post_media_bot3 ::
  "nat \<Rightarrow> env \<Rightarrow> string \<Rightarrow> group list \<Rightarrow> world \<Rightarrow> (summary list \<times> world) option" where
  "harvest_and_post_media_bot3 = harvest_and_post_media fetch_pass_bot3"

definition harvest_and_post_media_bot4 ::
  "nat \<Rightarrow> env \<Rightarrow> string \<Rightarrow> group list \<Rightarrow> world \<Rightarrow> (summary list \<times> world) option" where
  "harvest_and_post_media_bot4 = harvest_and_post_media fetch_pass_bot4"

section \<open>Concrete messages, clients and groups\<close>

definition photo :: "int \<Rightarrow> message" where
  "photo i = \<lparr>msg_id = i, msg_media = Some MessageMediaPhoto\<rparr>"

definition video :: "int \<Rightarrow> int \<Rightarrow> message" where
  "video i d =
     \<lparr>msg_id = i,
      msg_media = Some (MessageMediaDocument
        (Document ''video/mp4'' [DocumentAttributeFilename ''clip.mp4'', DocumentAttributeVideo d]))\<rparr>"

definition video_unknown :: "int \<Rightarrow> message" where
  "video_unknown i =
     \<lparr>msg_id = i,
      msg_media = Some (MessageMediaDocument
        (Document ''video/mp4'' [DocumentAttributeFilename ''clip.mp4'']))\<rparr>"

definition file_of :: "message \<Rightarrow> string" where
  "file_of m =
     (if msg_id m = 1 then ''/1'' else if msg_id m = 2 then ''/2''
      else if msg_id m = 3 then ''/3'' else ''/n'')"




definition nothing :: world where
  "nothing = \<lparr>files = {}, downloads = [], posted = [], logged = []\<rparr>"

definition group_of :: "string \<Rightarrow> message list \<Rightarrow> int \<Rightarrow> int \<Rightarrow> group" where
  "group_of n ms p v =
     \<lparr>gid = 1, name = n, history = ms, makedirs_raises = False, unreachable = False,
      req_photos = Some p, req_videos = Some v\<rparr>"

section \<open>Notions of the specification\<close>


text \<open>
  The specification's \<^verbatim>\<open>photosRemaining\<close> and \<^verbatim>\<open>videosRemaining\<close>: the script keeps
  the quota and the count of downloads, and compares them.
\<close>

definition photos_remaining :: "int \<Rightarrow> fetch_state \<Rightarrow> int" where
  "photos_remaining download_photos s = download_photos - downloaded_photos s"

definition videos_remaining :: "int \<Rightarrow> fetch_state \<Rightarrow> int" where
  "videos_remaining download_videos s = download_videos - downloaded_videos s"

text \<open>A video whose declared duration is known and exceeds 600 seconds.\<close>

definition exceeds :: "attribute \<Rightarrow> bool" where
  "exceeds a = (case duration a of Some d \<Rightarrow> 600 < d | None \<Rightarrow> False)"

definition known_over_threshold :: "message \<Rightarrow> bool" where
  "known_over_threshold m =
     (case msg_media m of
        Some (MessageMediaDocument (Document mime attrs)) \<Rightarrow>
          contains mime ''video'' \<and> list_ex exceeds attrs
      | _ \<Rightarrow> False)"

text \<open>A task that returned or was left by an exception.\<close>

fun ended :: "task \<Rightarrow> bool" where
  "ended Finished = True"
| "ended (Raised e) = True"
| "ended t = False"

text \<open>
  A batch in which every task that waits for a download, or may still start, belongs to
  the page \<open>ms\<close>, no task waits for the download of a video over the threshold, and
  every download made so far is of a message of the page under the threshold, or was
  made before the batch (\<open>D\<close>).
\<close>

definition only_eligible :: "message list \<Rightarrow> int set \<Rightarrow> batch \<Rightarrow> bool" where
  "only_eligible ms D b =
     ((\<forall>t \<in> set (tasks b).
         (\<forall>m. t = Pending m \<longrightarrow> m \<in> set ms) \<and>
         (\<forall>k m. t = Downloading k m \<longrightarrow> m \<in> set ms \<and> \<not> known_over_threshold m)) \<and>
      set (downloads (wld (shared b))) \<subseteq> D \<union> msg_id ` {m \<in> set ms. \<not> known_over_threshold m})"

text \<open>
  The files of a group all exist already: whatever path a download of one of its
  messages returns is on disk in \<open>w\<close>.
\<close>

definition already_on_disk :: "env \<Rightarrow> group \<Rightarrow> world \<Rightarrow> bool" where
  "already_on_disk E g w =
     (\<forall>fs m p written. files w \<subseteq> fs \<longrightarrow> m \<in> set (history g) \<longrightarrow>
        dl E fs (group_dir_of g) m = (DlReturns (Some p), written) \<longrightarrow> p \<in> files w)"


section \<open>The counting pass drains the history\<close>

lemma count_messages_available:
  "count_messages ms c = (fst c + fst (available ms), snd c + snd (available ms))"
proof (induction ms arbitrary: c)
  case Nil
  show ?case by (simp add: available_def)
next
  case (Cons m ms)
  obtain p v where c: "c = (p, v)" by (cases c)
  show ?case
    unfolding count_messages.simps Cons.IH
    by (simp add: c available_def is_photo_def
        split: option.splits media.splits document.splits)
qed

lemma available_append:
  "available (xs @ ys) = (fst (available xs) + fst (available ys), snd (available xs) + snd (available ys))"
  by (simp add: available_def)

lemma filter_older_tail:
  assumes "sorted_wrt (\<lambda>a b. b < a) (map msg_id (pre @ rest))" and "pre \<noteq> []"
  shows "filter (\<lambda>m. msg_id m < msg_id (last pre)) (pre @ rest) = rest"
proof -
  have pre: "\<forall>m \<in> set pre. \<not> msg_id m < msg_id (last pre)"
  proof
    fix m assume "m \<in> set pre"
    from assms(2) obtain ys y where p: "pre = ys @ [y]" by (metis rev_exhaust)
    with assms(1) have "\<forall>a \<in> set ys. msg_id y < msg_id a"
      by (auto simp: sorted_wrt_append)
    with \<open>m \<in> set pre\<close> p show "\<not> msg_id m < msg_id (last pre)" by auto
  qed
  have rest: "\<forall>m \<in> set rest. msg_id m < msg_id (last pre)"
    using assms by (auto simp: sorted_wrt_append)
  show ?thesis using pre rest by (simp add: filter_empty_conv[THEN iffD2] filter_id_conv[THEN iffD2])
qed

lemma get_messages_page:
  assumes "well_formed (history g)" and "\<not> unreachable g" and "history g = pre @ rest"
  shows "get_messages g (if pre = [] then 0 else msg_id (last pre)) lim = Inr (take lim rest)"
proof (cases "pre = []")
  case True
  with assms show ?thesis by (simp add: get_messages_def)
next
  case False
  from assms(1) False assms(3) have "0 < msg_id (last pre)"
    by (auto simp: well_formed_def list_all_iff)
  moreover have "filter (\<lambda>m. msg_id m < msg_id (last pre)) (history g) = rest"
    using filter_older_tail[of pre rest] assms False by (simp add: well_formed_def)
  ultimately show ?thesis using assms(2) False by (simp add: get_messages_def)
qed

lemma count_pass_drains:
  assumes "well_formed (history g)" and "\<not> unreachable g"
  shows "history g = pre @ rest \<Longrightarrow> length rest < fuel \<Longrightarrow>
         count_pass fuel g (if pre = [] then 0 else msg_id (last pre)) c =
           Some (Inr (fst c + fst (available rest), snd c + snd (available rest)))"
proof (induction fuel arbitrary: pre rest c)
  case 0
  then show ?case by simp
next
  case (Suc n)
  have page: "get_messages g (if pre = [] then 0 else msg_id (last pre)) limit = Inr (take limit rest)"
    using get_messages_page[OF assms Suc.prems(1)] .
  show ?case
  proof (cases rest)
    case Nil
    then show ?thesis using page by (simp add: available_def)
  next
    case (Cons r rs)
    define pg where "pg = take limit rest"
    define rest' where "rest' = drop limit rest"
    have pg_ne: "pg \<noteq> []" using Cons by (simp add: pg_def limit_def)
    then obtain m ms where pg_eq: "pg = m # ms" by (cases pg) auto
    have split: "history g = (pre @ pg) @ rest'"
      using Suc.prems(1) by (simp add: pg_def rest'_def)
    have len: "length rest' < n"
      using Suc.prems(2) Cons by (simp add: rest'_def limit_def)
    have ih: "count_pass n g (msg_id (last pg)) (count_messages pg c) =
        Some (Inr (fst (count_messages pg c) + fst (available rest'),
                   snd (count_messages pg c) + snd (available rest')))"
      using Suc.IH[OF split len, of "count_messages pg c"] pg_ne by simp
    have av: "available rest = (fst (available pg) + fst (available rest'),
                                snd (available pg) + snd (available rest'))"
      using available_append[of pg rest'] by (simp add: pg_def rest'_def)
    have "count_pass (Suc n) g (if pre = [] then 0 else msg_id (last pre)) c =
          count_pass n g (msg_id (last pg)) (count_messages pg c)"
      using page pg_eq by (simp add: pg_def[symmetric])
    then show ?thesis
      using ih av by (simp add: count_messages_available)
  qed
qed


text \<open>
  Claim C7. On a history as the server keeps it (positive ids, strictly decreasing) and a
  reachable group, the counting pass ends, given more pages than the history has
  messages, and its result is the tally of the whole history: every photo, and every
  document whose \<^verbatim>\<open>mime_type\<close> contains \<^verbatim>\<open>video\<close>, whatever its attributes say about
  its duration. The pass leaves its loop on an empty page only.
\<close>

theorem count_pass_tallies_whole_history:
  assumes "well_formed (history g)" and "\<not> unreachable g" and "length (history g) < fuel"
  shows "count_pass fuel g 0 (0, 0) = Some (Inr (available (history g)))"
  using count_pass_drains[OF assms(1,2), of "[]" "history g" fuel "(0, 0)"] assms(3)
  by simp

text \<open>
  Three videos of 120, 700 and 50 seconds: the one of 700 seconds is over the threshold
  and the count is 3.
\<close>

theorem count_pass_tallies_whole_history_witness:
  "well_formed (history (group_of ''B'' [video 3 120, video 2 700, video 1 50] 0 5)) \<and>
   \<not> unreachable (group_of ''B'' [video 3 120, video 2 700, video 1 50] 0 5) \<and>
   length (history (group_of ''B'' [video 3 120, video 2 700, video 1 50] 0 5)) < 4 \<and>
   known_over_threshold (video 2 700) \<and>
   count_pass 4 (group_of ''B'' [video 3 120, video 2 700, video 1 50] 0 5) 0 (0, 0) =
     Some (Inr (0, 3))"
proof -
  let ?g = "group_of ''B'' [video 3 120, video 2 700, video 1 50] 0 5"
  have wf: "well_formed (history ?g)"
    by (simp add: well_formed_def group_of_def video_def)
  have re: "\<not> unreachable ?g" by (simp add: group_of_def)
  have le: "length (history ?g) < 4" by (simp add: group_of_def)
  have ov: "known_over_threshold (video 2 700)"
    by (simp add: known_over_threshold_def video_def exceeds_def)
  have av: "available (history ?g) = (0, 3)"
    by (simp add: available_def group_of_def video_def is_photo_def)
  show ?thesis
    using count_pass_tallies_whole_history[OF wf re le] wf re le ov av by simp
qed

section \<open>Evaluating the loops on numerals\<close>

lemma count_pass_numeral:
  "count_pass (numeral k) g offset_id c =
     (case get_messages g offset_id limit of
        Inl e \<Rightarrow> Some (Inl e)
      | Inr [] \<Rightarrow> Some (Inr c)
      | Inr (m # ms) \<Rightarrow>
          count_pass (pred_numeral k) g (msg_id (last (m # ms))) (count_messages (m # ms) c))"
  by (simp add: numeral_eq_Suc)

lemma fetch_pass_bot3_numeral:
  "fetch_pass_bot3 (numeral k) E g target_group download_photos download_videos offset_id s =
     (case get_messages g offset_id limit of
        Inl e \<Rightarrow> Some (Some e, s)
      | Inr [] \<Rightarrow> Some (None, s)
      | Inr (m # ms) \<Rightarrow>
          (case harvest_messages_bot3 E (group_dir_of g) target_group
                  download_photos download_videos (m # ms) s of
             (Some e, s') \<Rightarrow> Some (Some e, s')
           | (None, s') \<Rightarrow>
               fetch_pass_bot3 (pred_numeral k) E g target_group download_photos download_videos
                 (msg_id (last (m # ms))) s'))"
  by (simp add: numeral_eq_Suc)

lemma fetch_pass_bot4_numeral:
  "fetch_pass_bot4 (numeral k) E g target_group download_photos download_videos offset_id s =
     (case get_messages g offset_id limit of
        Inl e \<Rightarrow> Some (Some e, s)
      | Inr [] \<Rightarrow> Some (None, s)
      | Inr (m # ms) \<Rightarrow>
          (case download_and_post_media E (group_dir_of g) target_group (m # ms)
                  (downloaded_photos s) (downloaded_videos s) download_photos download_videos
                  (wld s) of
             (Some e, w) \<Rightarrow> Some (Some e, s\<lparr>wld := w\<rparr>)
           | (None, w) \<Rightarrow>
               fetch_pass_bot4 (pred_numeral k) E g target_group download_photos download_videos
                 (msg_id (last (m # ms))) (s\<lparr>wld := w\<rparr>)))"
  by (simp add: numeral_eq_Suc)

lemmas eval_defs =
  count_pass_numeral fetch_pass_bot3_numeral fetch_pass_bot4_numeral
  harvest_group_def initial_def logging_def group_of_def photo_def video_def video_unknown_def
  get_messages_def limit_def harvest_message_bot3_def download_media_def
  post_media_to_group_def file_of_def group_dir_of_def Let_def nothing_def

lemma ex2:
  "count_pass 5 (group_of ''A'' [photo 3, photo 2, photo 1] 2 2) 0 (0, 0) = Some (Inr (3, 0))"
  by (simp add: eval_defs)




section \<open>The counters stay within the quota\<close>













section \<open>Batches of \<^verbatim>\<open>bot4.py\<close>\<close>

lemma too_long_None_iff: "(too_long attrs = None) = (\<not> list_ex exceeds attrs)"
  by (induction attrs) (auto simp: max_video_duration_def exceeds_def split: option.splits)

lemma start_cases:
  "start dlp dlv m s = (t, s') \<Longrightarrow>
   (ended t \<or> (\<exists>k. t = Downloading k m \<and> \<not> known_over_threshold m)) \<and>
   downloads (wld s') = downloads (wld s) \<and> files (wld s') = files (wld s) \<and>
   downloaded_photos s' = downloaded_photos s \<and> downloaded_videos s' = downloaded_videos s"
proof (cases "msg_media m")
  case None
  then show ?thesis if "start dlp dlv m s = (t, s')" using that by (auto simp: start_def)
next
  case (Some md)
  show ?thesis if st: "start dlp dlv m s = (t, s')"
  proof (cases md)
    case MessageMediaPhoto
    with Some st show ?thesis
      by (auto simp: start_def known_over_threshold_def split: if_splits)
  next
    case MessageMediaOther
    with Some st show ?thesis by (auto simp: start_def)
  next
    case (MessageMediaDocument doc)
    show ?thesis
    proof (cases doc)
      case DocumentEmpty
      with Some MessageMediaDocument st show ?thesis by (auto simp: start_def)
    next
      case (Document mime attrs)
      show ?thesis
      proof (cases "too_long attrs")
        case None
        then have "\<not> list_ex exceeds attrs" using too_long_None_iff by blast
        with None Some MessageMediaDocument Document st show ?thesis
          by (auto simp: start_def known_over_threshold_def split: if_splits)
      next
        case (Some d)
        with \<open>msg_media m = Some md\<close> MessageMediaDocument Document st show ?thesis
          by (auto simp: start_def logging_def split: if_splits)
      qed
    qed
  qed
qed

lemma resume_cases:
  "resume E d k m s = (t, s') \<Longrightarrow>
   ended t \<and> downloads (wld s') = downloads (wld s) @ [msg_id m]"
  by (auto simp: resume_def download_media_def logging_def
      split: prod.splits dl_outcome.splits option.splits if_splits kind.splits)


lemma step_unfold:
  "step E d dlp dlv i b =
     (if i < length (tasks b) then
        (case tasks b ! i of
           Pending m \<Rightarrow>
             if in_flight (tasks b) < 5 then settle i (start dlp dlv m (shared b)) b else b
         | Downloading k m \<Rightarrow> settle i (resume E d k m (shared b)) b
         | Finished \<Rightarrow> b
         | Raised e \<Rightarrow> b)
      else b)"
  by (simp add: step_def)

lemma tasks_settle: "tasks (settle i (t, s) b) = (tasks b)[i := t]"
  by simp

lemma shared_settle: "shared (settle i (t, s) b) = s"
  by simp

lemma step_shape:
  "step E d dlp dlv i b = b \<or>
   (i < length (tasks b) \<and>
    ((\<exists>m t s. tasks b ! i = Pending m \<and> in_flight (tasks b) < 5 \<and>
        start dlp dlv m (shared b) = (t, s) \<and> step E d dlp dlv i b = settle i (t, s) b) \<or>
     (\<exists>k m t s. tasks b ! i = Downloading k m \<and>
        resume E d k m (shared b) = (t, s) \<and> step E d dlp dlv i b = settle i (t, s) b)))"
proof (cases "i < length (tasks b)")
  case False
  then show ?thesis by (simp add: step_unfold)
next
  case True
  show ?thesis
  proof (cases "tasks b ! i")
    case (Pending m)
    obtain t s where st: "start dlp dlv m (shared b) = (t, s)"
      by (cases "start dlp dlv m (shared b)")
    with True Pending show ?thesis by (simp add: step_unfold)
  next
    case (Downloading k m)
    obtain t s where st: "resume E d k m (shared b) = (t, s)"
      by (cases "resume E d k m (shared b)")
    with True Downloading show ?thesis by (simp add: step_unfold)
  next
    case Finished
    with True show ?thesis by (simp add: step_unfold)
  next
    case (Raised e)
    with True show ?thesis by (simp add: step_unfold)
  qed
qed

lemma length_step: "length (tasks (step E d dlp dlv i b)) = length (tasks b)"
  using step_shape[of E d dlp dlv i b] by (auto simp del: settle.simps simp: tasks_settle)

lemma step_only_eligible:
  assumes "only_eligible ms D b"
  shows "only_eligible ms D (step E d dlp dlv i b)"
proof -
  consider (same) "step E d dlp dlv i b = b"
    | (started) m t s where "i < length (tasks b)" "tasks b ! i = Pending m"
        "start dlp dlv m (shared b) = (t, s)" "step E d dlp dlv i b = settle i (t, s) b"
    | (resumed) k m t s where "i < length (tasks b)" "tasks b ! i = Downloading k m"
        "resume E d k m (shared b) = (t, s)" "step E d dlp dlv i b = settle i (t, s) b"
    using step_shape[of E d dlp dlv i b] by blast
  then show ?thesis
  proof cases
    case same
    with assms show ?thesis by simp
  next
    case started
    from started(1,2) have mem: "Pending m \<in> set (tasks b)" by (metis nth_mem)
    with assms have m: "m \<in> set ms" by (auto simp: only_eligible_def)
    from start_cases[OF started(3)]
    have t: "ended t \<or> (\<exists>k. t = Downloading k m \<and> \<not> known_over_threshold m)"
      and dl: "downloads (wld s) = downloads (wld (shared b))" by auto
    have sub: "set ((tasks b)[i := t]) \<subseteq> insert t (set (tasks b))"
      by (rule set_update_subset_insert)
    have tprop: "(\<forall>m'. t = Pending m' \<longrightarrow> m' \<in> set ms) \<and>
         (\<forall>k m'. t = Downloading k m' \<longrightarrow> m' \<in> set ms \<and> \<not> known_over_threshold m')"
      using t m by (cases t) auto
    show ?thesis
      unfolding started(4) only_eligible_def tasks_settle shared_settle dl
      using assms sub tprop unfolding only_eligible_def by blast
  next
    case resumed
    from resumed(1,2) have mem: "Downloading k m \<in> set (tasks b)" by (metis nth_mem)
    with assms have m: "m \<in> set ms" "\<not> known_over_threshold m"
      by (auto simp: only_eligible_def)
    from resume_cases[OF resumed(3)]
    have t: "ended t" and dl: "downloads (wld s) = downloads (wld (shared b)) @ [msg_id m]"
      by auto
    have sub: "set ((tasks b)[i := t]) \<subseteq> insert t (set (tasks b))"
      by (rule set_update_subset_insert)
    have tprop: "(\<forall>m'. t = Pending m' \<longrightarrow> m' \<in> set ms) \<and>
         (\<forall>k m'. t = Downloading k m' \<longrightarrow> m' \<in> set ms \<and> \<not> known_over_threshold m')"
      using t by (cases t) auto
    have dsub: "set (downloads (wld (shared b)) @ [msg_id m]) \<subseteq>
        D \<union> msg_id ` {m \<in> set ms. \<not> known_over_threshold m}"
      using assms m unfolding only_eligible_def by auto
    show ?thesis
      unfolding resumed(4) only_eligible_def tasks_settle shared_settle dl
      using assms sub tprop dsub unfolding only_eligible_def by blast
  qed
qed

lemma run_only_eligible:
  "only_eligible ms D b \<Longrightarrow> only_eligible ms D (run E d dlp dlv order b)"
  unfolding run_def
  by (induction order arbitrary: b) (simp_all add: step_only_eligible)

lemma resume_all_only_eligible:
  "only_eligible ms D b \<Longrightarrow>
   only_eligible ms D
     (fold (\<lambda>i b. if is_downloading (tasks b ! i) then step E d dlp dlv i b else b) ix b)"
  by (induction ix arbitrary: b) (simp_all add: step_only_eligible)

lemma complete_only_eligible:
  "only_eligible ms D b \<Longrightarrow> only_eligible ms D (complete E d dlp dlv b)"
  unfolding complete_def Let_def
  by (intro run_only_eligible resume_all_only_eligible)

lemma gather_only_eligible:
  "only_eligible ms (set (downloads (wld s))) (gather E d dlp dlv order ms s)"
  unfolding gather_def
  by (intro complete_only_eligible run_only_eligible) (auto simp: only_eligible_def)

lemma ended_not_downloading: "ended t \<Longrightarrow> \<not> is_downloading t"
  by (cases t) auto

lemma step_ended_same: "ended (tasks b ! i) \<Longrightarrow> step E d dlp dlv i b = b"
  by (cases "tasks b ! i") (auto simp: step_unfold)

lemma resume_one:
  "\<exists>t. \<not> is_downloading t \<and>
       tasks (if is_downloading (tasks b ! i) then step E d dlp dlv i b else b) = (tasks b)[i := t]"
proof (cases "i < length (tasks b)")
  case False
  then have "(if is_downloading (tasks b ! i) then step E d dlp dlv i b else b) = b"
    by (simp add: step_unfold)
  moreover have "(tasks b)[i := Finished] = tasks b"
    by (rule list_update_beyond) (use False in linarith)
  ultimately show ?thesis by (intro exI[of _ Finished]) simp
next
  case True
  show ?thesis
  proof (cases "is_downloading (tasks b ! i)")
    case False
    have "(tasks b)[i := tasks b ! i] = tasks b" by simp
    with False show ?thesis by (intro exI[of _ "tasks b ! i"]) simp
  next
    case dl: True
    then obtain k m where dm: "tasks b ! i = Downloading k m" by (cases "tasks b ! i") auto
    obtain t s where rs: "resume E d k m (shared b) = (t, s)"
      by (cases "resume E d k m (shared b)")
    from resume_cases[OF rs] have "ended t" by simp
    then have "\<not> is_downloading t" by (rule ended_not_downloading)
    moreover have "tasks (step E d dlp dlv i b) = (tasks b)[i := t]"
      using True dm rs by (simp add: step_unfold)
    ultimately show ?thesis using dl by auto
  qed
qed

lemma resume_all_none_downloading:
  "(\<forall>j < length (tasks b). is_downloading (tasks b ! j) \<longrightarrow> j \<in> set ix) \<Longrightarrow>
   (\<forall>t \<in> set (tasks (fold (\<lambda>i b. if is_downloading (tasks b ! i)
                                     then step E d dlp dlv i b else b) ix b)).
      \<not> is_downloading t)"
proof (induction ix arbitrary: b)
  case Nil
  have "\<not> is_downloading t" if "t \<in> set (tasks b)" for t
  proof -
    from that obtain j where "j < length (tasks b)" "tasks b ! j = t"
      unfolding in_set_conv_nth by blast
    with Nil show ?thesis by auto
  qed
  then show ?case by simp
next
  case (Cons i ix)
  define b' where "b' = (if is_downloading (tasks b ! i) then step E d dlp dlv i b else b)"
  obtain t where t: "\<not> is_downloading t" "tasks b' = (tasks b)[i := t]"
    using resume_one[of b i E d dlp dlv] unfolding b'_def by blast
  have "\<forall>j < length (tasks b'). is_downloading (tasks b' ! j) \<longrightarrow> j \<in> set ix"
  proof (intro allI impI)
    fix j assume j: "j < length (tasks b')" and dj: "is_downloading (tasks b' ! j)"
    from j t(2) have jl: "j < length (tasks b)" by simp
    have ne: "j \<noteq> i"
    proof
      assume "j = i"
      with t(2) jl have "tasks b' ! j = t" by simp
      with dj t(1) show False by simp
    qed
    then have "tasks b' ! j = tasks b ! j" using t(2) by simp
    with dj Cons.prems jl have "j \<in> set (i # ix)" by simp
    with ne show "j \<in> set ix" by simp
  qed
  moreover have eq: "fold (\<lambda>i b. if is_downloading (tasks b ! i)
                             then step E d dlp dlv i b else b) (i # ix) b =
      fold (\<lambda>i b. if is_downloading (tasks b ! i)
                             then step E d dlp dlv i b else b) ix b'"
    unfolding b'_def by (simp only: fold_Cons comp_apply)
  ultimately have "\<forall>t \<in> set (tasks (fold (\<lambda>i b. if is_downloading (tasks b ! i)
                                     then step E d dlp dlv i b else b) ix b')).
      \<not> is_downloading t"
    using Cons.IH[of b'] by blast
  then show ?case unfolding eq .
qed

lemma in_flight_none: "\<forall>t \<in> set ts. \<not> is_downloading t \<Longrightarrow> in_flight ts = 0"
  by (simp add: in_flight_def)

lemma run_alone:
  assumes "\<forall>t \<in> set (tasks b). \<not> is_downloading t"
  shows "\<exists>t. ended t \<and>
           tasks (step E d dlp dlv i (step E d dlp dlv i b)) = (tasks b)[i := t]"
proof (cases "i < length (tasks b)")
  case False
  then have "step E d dlp dlv i (step E d dlp dlv i b) = b" by (simp add: step_unfold)
  moreover have "(tasks b)[i := Finished] = tasks b"
    by (rule list_update_beyond) (use False in linarith)
  ultimately show ?thesis by (intro exI[of _ Finished]) simp
next
  case True
  show ?thesis
  proof (cases "tasks b ! i")
    case (Pending m)
    obtain t1 s1 where st: "start dlp dlv m (shared b) = (t1, s1)"
      by (cases "start dlp dlv m (shared b)")
    have b1: "step E d dlp dlv i b = settle i (t1, s1) b"
      using True Pending st in_flight_none[OF assms] by (simp add: step_unfold)
    from start_cases[OF st] have "ended t1 \<or> (\<exists>k. t1 = Downloading k m)" by blast
    then show ?thesis
    proof
      assume e: "ended t1"
      then have "ended (tasks (settle i (t1, s1) b) ! i)" using True by simp
      from step_ended_same[OF this]
      have "step E d dlp dlv i (settle i (t1, s1) b) = settle i (t1, s1) b" .
      then have "tasks (step E d dlp dlv i (step E d dlp dlv i b)) = (tasks b)[i := t1]"
        using b1 by simp
      with e show ?thesis by blast
    next
      assume "\<exists>k. t1 = Downloading k m"
      then obtain k where k: "t1 = Downloading k m" by blast
      obtain t2 s2 where rs: "resume E d k m s1 = (t2, s2)" by (cases "resume E d k m s1")
      from resume_cases[OF rs] have e2: "ended t2" by simp
      have "tasks (step E d dlp dlv i (settle i (t1, s1) b)) = (tasks b)[i := t2]"
        using True k rs by (simp add: step_unfold)
      with b1 e2 show ?thesis by auto
    qed
  next
    case (Downloading k m)
    with True have "Downloading k m \<in> set (tasks b)" by (metis nth_mem)
    with assms show ?thesis by auto
  next
    case Finished
    then have "step E d dlp dlv i (step E d dlp dlv i b) = b" by (simp add: step_unfold)
    moreover have "(tasks b)[i := Finished] = tasks b"
      using Finished list_update_id[of "tasks b" i] by simp
    ultimately show ?thesis by (intro exI[of _ Finished]) simp
  next
    case (Raised e)
    then have "step E d dlp dlv i (step E d dlp dlv i b) = b" by (simp add: step_unfold)
    moreover have "(tasks b)[i := Raised e] = tasks b"
      using Raised list_update_id[of "tasks b" i] by simp
    ultimately show ?thesis by (intro exI[of _ "Raised e"]) simp
  qed
qed

lemma fold_pairs:
  "fold f (concat (map (\<lambda>i. [i, i]) ix)) b = fold (\<lambda>i b. f i (f i b)) ix b"
  by (induction ix arbitrary: b) simp_all

lemma run_each_alone:
  "\<forall>t \<in> set (tasks b). \<not> is_downloading t \<Longrightarrow>
   (\<forall>j < length (tasks b). \<not> ended (tasks b ! j) \<longrightarrow> j \<in> set ix) \<Longrightarrow>
   (\<forall>t \<in> set (tasks (fold (\<lambda>i b. step E d dlp dlv i (step E d dlp dlv i b)) ix b)). ended t)"
proof (induction ix arbitrary: b)
  case Nil
  have "ended t" if "t \<in> set (tasks b)" for t
  proof -
    from that obtain j where "j < length (tasks b)" "tasks b ! j = t"
      unfolding in_set_conv_nth by blast
    with Nil(2) show ?thesis by auto
  qed
  then show ?case by simp
next
  case (Cons i ix)
  let ?b = "step E d dlp dlv i (step E d dlp dlv i b)"
  obtain t where t: "ended t" "tasks ?b = (tasks b)[i := t]"
    using run_alone[OF Cons.prems(1), of E d dlp dlv i] by blast
  have nd: "\<forall>u \<in> set (tasks ?b). \<not> is_downloading u"
    using Cons.prems(1) t ended_not_downloading[OF t(1)] set_update_subset_insert[of "tasks b" i t]
    by auto
  have "\<forall>j < length (tasks ?b). \<not> ended (tasks ?b ! j) \<longrightarrow> j \<in> set ix"
  proof (intro allI impI)
    fix j assume j: "j < length (tasks ?b)" and nj: "\<not> ended (tasks ?b ! j)"
    from j t(2) have jl: "j < length (tasks b)" by simp
    have "j \<noteq> i" using nj t jl by (auto simp: nth_list_update)
    then have "tasks ?b ! j = tasks b ! j" using t(2) by (simp add: nth_list_update)
    with nj Cons.prems(2) jl have "j \<in> set (i # ix)" by simp
    with \<open>j \<noteq> i\<close> show "j \<in> set ix" by simp
  qed
  from Cons.IH[OF nd this] show ?case by (simp only: fold_Cons comp_apply)
qed

lemma length_resume_all:
  "length (tasks (fold (\<lambda>i b. if is_downloading (tasks b ! i)
                               then step E d dlp dlv i b else b) ix b)) = length (tasks b)"
proof (induction ix arbitrary: b)
  case Nil
  show ?case by simp
next
  case (Cons i ix)
  define b' where "b' = (if is_downloading (tasks b ! i) then step E d dlp dlv i b else b)"
  have "length (tasks b') = length (tasks b)" by (simp add: b'_def length_step)
  with Cons.IH[of b'] show ?case
    unfolding b'_def by (simp only: fold_Cons comp_apply)
qed

lemma complete_all_ended: "\<forall>t \<in> set (tasks (complete E d dlp dlv b)). ended t"
proof -
  let ?ix = "[0..<length (tasks b)]"
  let ?b1 = "fold (\<lambda>i b. if is_downloading (tasks b ! i)
                           then step E d dlp dlv i b else b) ?ix b"
  have nd: "\<forall>t \<in> set (tasks ?b1). \<not> is_downloading t"
    by (rule resume_all_none_downloading) simp
  have len: "length (tasks ?b1) = length (tasks b)" by (rule length_resume_all)
  have "\<forall>t \<in> set (tasks (fold (\<lambda>i b. step E d dlp dlv i (step E d dlp dlv i b)) ?ix ?b1)).
          ended t"
    by (rule run_each_alone[OF nd]) (simp add: len)
  then show ?thesis
    unfolding complete_def run_def Let_def fold_pairs .
qed

lemma gather_all_ended: "list_all ended (tasks (gather E d dlp dlv order ms s))"
  using complete_all_ended by (simp add: gather_def list_all_iff)

section \<open>Files that exist already\<close>

lemma post_media_to_group_files [simp]:
  "files (post_media_to_group E t p w) = files w"
  by (simp add: post_media_to_group_def logging_def)

lemma harvest_message_bot3_duplicate:
  assumes "dl E (files (wld s)) d m = (DlReturns (Some p), written)"
      and "p \<in> files (wld s) \<union> written"
      and "harvest_message_bot3 E d t dlp dlv m s = (r, s')"
  shows "downloaded_photos s' = downloaded_photos s \<and>
         downloaded_videos s' = downloaded_videos s \<and>
         posted (wld s') = posted (wld s)"
  using assms
  by (auto simp: harvest_message_bot3_def download_media_def logging_def
      split: option.splits media.splits document.splits if_splits)

lemma resume_duplicate:
  assumes "dl E (files (wld s)) d m = (DlReturns (Some p), written)"
      and "p \<in> files (wld s) \<union> written"
  shows "\<exists>s'. resume E d k m s = (Finished, s') \<and>
         downloaded_photos s' = downloaded_photos s \<and>
         downloaded_videos s' = downloaded_videos s \<and>
         posted (wld s') = posted (wld s)"
  using assms by (auto simp: resume_def download_media_def)

lemma harvest_message_bot3_files:
  "harvest_message_bot3 E d t dlp dlv m s = (r, s') \<Longrightarrow> files (wld s) \<subseteq> files (wld s')"
  by (auto simp: harvest_message_bot3_def download_media_def logging_def
      split: option.splits media.splits document.splits if_splits prod.splits dl_outcome.splits)

lemma harvest_messages_bot3_on_disk:
  assumes "\<forall>fs m p written. F \<subseteq> fs \<longrightarrow> m \<in> set ms \<longrightarrow>
             dl E fs d m = (DlReturns (Some p), written) \<longrightarrow> p \<in> F"
  shows "F \<subseteq> files (wld s) \<Longrightarrow> harvest_messages_bot3 E d t dlp dlv ms s = (r, s') \<Longrightarrow>
         downloaded_photos s' = downloaded_photos s \<and>
         downloaded_videos s' = downloaded_videos s \<and> F \<subseteq> files (wld s')"
  using assms
proof (induction ms arbitrary: s)
  case Nil
  then show ?case by simp
next
  case (Cons m ms)
  obtain r1 s1 where st: "harvest_message_bot3 E d t dlp dlv m s = (r1, s1)"
    by (cases "harvest_message_bot3 E d t dlp dlv m s")
  have fs1: "F \<subseteq> files (wld s1)"
    using harvest_message_bot3_files[OF st] Cons.prems(1) by blast
  have keep: "downloaded_photos s1 = downloaded_photos s \<and>
              downloaded_videos s1 = downloaded_videos s"
  proof (cases "dl E (files (wld s)) d m")
    case (Pair out written)
    show ?thesis
    proof (cases out)
      case DlRaises
      with Pair st show ?thesis
        by (auto simp: harvest_message_bot3_def download_media_def
            split: option.splits media.splits document.splits if_splits)
    next
      case (DlReturns fn)
      show ?thesis
      proof (cases fn)
        case None
        with Pair DlReturns st show ?thesis
          by (auto simp: harvest_message_bot3_def download_media_def
              split: option.splits media.splits document.splits if_splits)
      next
        case (Some p)
        with Pair DlReturns Cons.prems(1,3) have "p \<in> F" by auto
        with Cons.prems(1) have "p \<in> files (wld s) \<union> written" by blast
        from harvest_message_bot3_duplicate[OF _ this st] Pair DlReturns Some
        show ?thesis by simp
      qed
    qed
  qed
  show ?case
  proof (cases r1)
    case None
    with Cons.prems(2) st have rest: "harvest_messages_bot3 E d t dlp dlv ms s1 = (r, s')"
      by simp
    have "\<forall>fs m p written. F \<subseteq> fs \<longrightarrow> m \<in> set ms \<longrightarrow>
             dl E fs d m = (DlReturns (Some p), written) \<longrightarrow> p \<in> F"
      using Cons.prems(3) by auto
    from Cons.IH[OF fs1 rest this] keep show ?thesis by simp
  next
    case (Some e)
    with Cons.prems(2) st have "s' = s1" by simp
    with keep fs1 show ?thesis by simp
  qed
qed

lemma get_messages_subset:
  "get_messages g off lim = Inr page \<Longrightarrow> set page \<subseteq> set (history g)"
  by (auto simp: get_messages_def split: if_splits dest: in_set_takeD)

lemma fetch_pass_bot3_on_disk:
  assumes "\<forall>fs m p written. F \<subseteq> fs \<longrightarrow> m \<in> set (history g) \<longrightarrow>
             dl E fs (group_dir_of g) m = (DlReturns (Some p), written) \<longrightarrow> p \<in> F"
  shows "F \<subseteq> files (wld s) \<Longrightarrow> fetch_pass_bot3 n E g t dlp dlv off s = Some (r, s') \<Longrightarrow>
         downloaded_photos s' = downloaded_photos s \<and>
         downloaded_videos s' = downloaded_videos s"
proof (induction n arbitrary: off s)
  case 0
  then show ?case by simp
next
  case (Suc n)
  show ?case
  proof (cases "get_messages g off limit")
    case (Inl e)
    with Suc.prems show ?thesis by simp
  next
    case (Inr page)
    show ?thesis
    proof (cases page)
      case Nil
      with Inr Suc.prems show ?thesis by simp
    next
      case (Cons m ms)
      obtain r1 s1 where pg:
        "harvest_messages_bot3 E (group_dir_of g) t dlp dlv (m # ms) s = (r1, s1)"
        by (cases "harvest_messages_bot3 E (group_dir_of g) t dlp dlv (m # ms) s")
      have sub: "set (m # ms) \<subseteq> set (history g)"
        using get_messages_subset[OF Inr] Cons by simp
      have "\<forall>fs m' p written. F \<subseteq> fs \<longrightarrow> m' \<in> set (m # ms) \<longrightarrow>
             dl E fs (group_dir_of g) m' = (DlReturns (Some p), written) \<longrightarrow> p \<in> F"
        using assms sub by blast
      from harvest_messages_bot3_on_disk[OF this Suc.prems(1) pg]
      have k1: "downloaded_photos s1 = downloaded_photos s \<and>
                downloaded_videos s1 = downloaded_videos s" and f1: "F \<subseteq> files (wld s1)"
        by simp_all
      show ?thesis
      proof (cases r1)
        case None
        with Suc.prems(2) Inr Cons pg
        have "fetch_pass_bot3 n E g t dlp dlv (msg_id (last (m # ms))) s1 = Some (r, s')"
          by simp
        from Suc.IH[OF f1 this] k1 show ?thesis by simp
      next
        case (Some e)
        with Suc.prems(2) Inr Cons pg have "s' = s1" by simp
        with k1 show ?thesis by simp
      qed
    qed
  qed
qed

end
